theory Spec2Isabelle
  imports
    Main
    "HOL-Library.AList"
    "HOL-Library.Char_ord"
    "HOL-Library.List_Lexorder"
    "HOL-Library.Multiset"
    "HOL-Library.Sublist"
    "HOL-Library.Word"
begin

unbundle bit_operations_syntax

section \<open>The duplicate-file finder of \<^verbatim>\<open>find-duplicate-files.py\<close>\<close>

text \<open>
  The development embeds the functions of \<^verbatim>\<open>src/find-duplicate-files.py\<close>:
  the glob matcher, the path collector, the hashing worker, the aggregation of the hash
  results and the filtering and rendering at the end of \<^verbatim>\<open>main\<close>.

  Conventions.
  \<^item> A Python \<^verbatim>\<open>str\<close> is a \<^typ>\<open>string\<close>. The order on strings is the lexicographic
    order on the character codes (\<^verbatim>\<open>List_Lexorder\<close> over \<^verbatim>\<open>Char_ord\<close>), which is the
    order of Python's \<^verbatim>\<open>sorted\<close> on \<^verbatim>\<open>str\<close> values (code points; UTF-8 keeps that order
    on bytes).
  \<^item> A Python \<^verbatim>\<open>dict\<close> is an association list in insertion order. Assigning a key is
    \<^const>\<open>AList.update\<close>: an existing key keeps its position, a new key goes to the end.
    A list that came out of dictionary operations has distinct keys (\<open>dict_wf\<close>).
  \<^item> A raised exception is a value \<open>Inl e\<close> of a sum type.
\<close>

subsection \<open>Dictionaries\<close>

type_synonym ('k, 'v) dict = "('k \<times> 'v) list"

definition dict_wf :: "('k, 'v) dict \<Rightarrow> bool" where
  "dict_wf d = distinct (map fst d)"

text \<open>
  \<^verbatim>\<open>d.setdefault(k, default)\<close>: the value stored under \<open>k\<close>; when \<open>k\<close> is absent,
  \<open>default\<close> is stored first. The dictionary after the call and the value returned.
\<close>

definition dict_setdefault :: "'k \<Rightarrow> 'v \<Rightarrow> ('k, 'v) dict \<Rightarrow> ('k, 'v) dict \<times> 'v" where
  "dict_setdefault k dflt d =
     (case map_of d k of
        Some v \<Rightarrow> (d, v)
      | None \<Rightarrow> (AList.update k dflt d, dflt))"

text \<open>
  A dictionary comprehension \<^verbatim>\<open>{key(k, v): val(k, v) for k, v in d.items() if cond(k, v)}\<close>:
  the items are visited in order and each one that passes the condition is assigned into
  the dictionary under construction.
\<close>

fun dict_comp_loop ::
  "('k \<times> 'v \<Rightarrow> bool) \<Rightarrow> ('k \<times> 'v \<Rightarrow> 'k2 \<times> 'v2) \<Rightarrow> ('k \<times> 'v) list \<Rightarrow> ('k2, 'v2) dict
    \<Rightarrow> ('k2, 'v2) dict" where
  "dict_comp_loop cond item [] acc = acc"
| "dict_comp_loop cond item (kv # kvs) acc =
     dict_comp_loop cond item kvs
       (if cond kv then AList.update (fst (item kv)) (snd (item kv)) acc else acc)"

definition dict_comp ::
  "('k \<times> 'v \<Rightarrow> bool) \<Rightarrow> ('k \<times> 'v \<Rightarrow> 'k2 \<times> 'v2) \<Rightarrow> ('k, 'v) dict \<Rightarrow> ('k2, 'v2) dict" where
  "dict_comp cond item d = dict_comp_loop cond item d []"

subsection \<open>Hash results and their aggregation\<close>

text \<open>\<^verbatim>\<open>class _HashResult(NamedTuple)\<close>: \<^verbatim>\<open>path: str\<close>, \<^verbatim>\<open>digest: str\<close>.\<close>

record HashResult =
  path :: string
  digest :: string

type_synonym groups = "(string, string list) dict"

text \<open>
  The body of the loop of \<^verbatim>\<open>_file_hashes\<close>,
  \<^verbatim>\<open>hashes.setdefault(res.digest, []).append(res.path)\<close>. The list that \<^verbatim>\<open>setdefault\<close>
  returns is the object stored in the dictionary, so appending to it changes the entry.
\<close>

definition add_result :: "groups \<Rightarrow> HashResult \<Rightarrow> groups" where
  "add_result hashes res =
     (case dict_setdefault (digest res) [] hashes of
        (hashes', paths) \<Rightarrow> AList.update (digest res) (paths @ [path res]) hashes')"

text \<open>
  \<^verbatim>\<open>for future in completed_futures: ...\<close> over the results in completion order, from
  the dictionary \<open>hashes\<close>.
\<close>

fun aggregate_loop :: "groups \<Rightarrow> HashResult list \<Rightarrow> groups" where
  "aggregate_loop hashes [] = hashes"
| "aggregate_loop hashes (res # rest) = aggregate_loop (add_result hashes res) rest"

text \<open>\<^verbatim>\<open>sorted(paths)\<close> on a list of strings.\<close>

definition sorted_py :: "string list \<Rightarrow> string list" where
  "sorted_py paths = sort paths"

text \<open>
  Lines 265 to 270 of \<^verbatim>\<open>_file_hashes\<close>: the loop from the empty dictionary, then
  \<^verbatim>\<open>{digest: sorted(paths) for digest, paths in hashes.items()}\<close>.
\<close>

definition aggregate :: "HashResult list \<Rightarrow> groups" where
  "aggregate results =
     dict_comp (\<lambda>_. True) (\<lambda>(d, paths). (d, sorted_py paths)) (aggregate_loop [] results)"

text \<open>The paths that the results pair with a digest, in the order of the results.\<close>

definition paths_of :: "string \<Rightarrow> HashResult list \<Rightarrow> string list" where
  "paths_of d results = map path (filter (\<lambda>r. digest r = d) results)"

subsection \<open>Filtering and rendering\<close>

text \<open>The exceptions that the modelled code raises.\<close>

datatype error = ValueError | OSError | AssertionError

text \<open>
  What is written to standard output, one value per call. The terminal escapes of
  \<^verbatim>\<open>click.style\<close>, the text that \<^verbatim>\<open>json.dumps\<close> produces and the quoting of
  \<^verbatim>\<open>csv.writer\<close> belong to those libraries; the output holds the arguments of the calls.
\<close>

datatype colour = Red | Green | Yellow

datatype piece =
    Plain string
  | Style string colour bool  \<comment> \<open>\<^verbatim>\<open>click.style(text, fg=colour, bold=flag)\<close>\<close>

datatype written =
    Echo "piece list"  \<comment> \<open>\<^verbatim>\<open>click.echo\<close> of the concatenation of the pieces\<close>
  | Print_json groups nat  \<comment> \<open>\<^verbatim>\<open>print(json.dumps(d, indent=n))\<close>\<close>
  | Csv_row "string list"  \<comment> \<open>\<^verbatim>\<open>csv.writer(f).writerow(fields)\<close>\<close>

text \<open>\<^verbatim>\<open>str(n)\<close> of a natural number, \<^verbatim>\<open>sep.join(xs)\<close>.\<close>

definition digit_char :: "nat \<Rightarrow> char" where
  "digit_char n = char_of (48 + n)"

function str_nat :: "nat \<Rightarrow> string" where
  "str_nat n = (if n < 10 then [digit_char n] else str_nat (n div 10) @ [digit_char (n mod 10)])"
  by pat_completeness auto
termination
  by (relation "measure (\<lambda>n. n)") auto

declare str_nat.simps [simp del]

fun str_join :: "string \<Rightarrow> string list \<Rightarrow> string" where
  "str_join sep [] = []"
| "str_join sep [x] = x"
| "str_join sep (x # y # ys) = x @ sep @ str_join sep (y # ys)"

text \<open>
  \<^verbatim>\<open>_echo_matched_digests\<close>: for every digest, for every path of it, one line
  \<^verbatim>\<open>digest:path\<close> with the digest in red and the colon in green.
\<close>

fun echo_matched_paths :: "string \<Rightarrow> string list \<Rightarrow> written list \<Rightarrow> written list" where
  "echo_matched_paths d [] out = out"
| "echo_matched_paths d (p # ps) out =
     echo_matched_paths d ps (out @ [Echo [Style d Red False, Style '':'' Green False, Plain p]])"

fun echo_matched_digests :: "groups \<Rightarrow> written list \<Rightarrow> written list" where
  "echo_matched_digests [] out = out"
| "echo_matched_digests ((d, paths) # rest) out =
     echo_matched_digests rest (echo_matched_paths d paths out)"

text \<open>
  \<^verbatim>\<open>_echo_duplicate_files\<close>: for every digest a bold yellow header
  \<^verbatim>\<open>f"{len(paths)} files with {hash_algorithm} hash '{digest}':"\<close>, then the paths joined
  by newlines.
\<close>

fun echo_duplicate_files :: "groups \<Rightarrow> string \<Rightarrow> written list \<Rightarrow> written list" where
  "echo_duplicate_files [] hash_algorithm out = out"
| "echo_duplicate_files ((d, paths) # rest) hash_algorithm out =
     echo_duplicate_files rest hash_algorithm
       (out @
        [Echo [Style (str_nat (length paths) @ '' files with '' @ hash_algorithm @ '' hash ''
                 @ [CHR 0x27] @ d @ [CHR 0x27] @ '':'') Yellow True],
         Echo [Plain (str_join [CHR 0x0A] paths)]])"

text \<open>
  \<^verbatim>\<open>_write_csv\<close>: the header row \<^verbatim>\<open>(hash_algorithm, "path")\<close>, then for every digest
  and every file of it the row \<^verbatim>\<open>(digest, file)\<close>. \<open>f\<close> is what the file holds already.
\<close>

fun write_csv_files :: "string \<Rightarrow> string list \<Rightarrow> written list \<Rightarrow> written list" where
  "write_csv_files d [] f = f"
| "write_csv_files d (file # files) f = write_csv_files d files (f @ [Csv_row [d, file]])"

fun write_csv_groups :: "groups \<Rightarrow> written list \<Rightarrow> written list" where
  "write_csv_groups [] f = f"
| "write_csv_groups ((d, files) # rest) f = write_csv_groups rest (write_csv_files d files f)"

definition write_csv :: "groups \<Rightarrow> string \<Rightarrow> written list \<Rightarrow> written list" where
  "write_csv identical hash_algorithm f =
     write_csv_groups identical (f @ [Csv_row [hash_algorithm, ''path'']])"

text \<open>
  Lines 113 to 121 of \<^verbatim>\<open>main\<close>: with digests to match (\<^verbatim>\<open>if match_digests:\<close>, a
  non-empty tuple) the groups whose digest is in \<^verbatim>\<open>set(match_digests)\<close>, otherwise the
  groups of more than one path. Both are dictionary comprehensions.
\<close>

definition filter_groups :: "string list \<Rightarrow> groups \<Rightarrow> groups" where
  "filter_groups match_digests file_hashes =
     (if match_digests \<noteq> [] then
        (let to_match = set match_digests
         in dict_comp (\<lambda>(d, paths). d \<in> to_match) (\<lambda>(d, paths). (d, paths)) file_hashes)
      else dict_comp (\<lambda>(d, paths). length paths > 1) (\<lambda>(d, paths). (d, paths)) file_hashes)"

text \<open>
  Lines 126 to 136 of \<^verbatim>\<open>main\<close>: the rendering in the chosen format. \<^verbatim>\<open>click.Choice\<close>
  admits only the formats of \<open>format_choices\<close>; the last branch raises for any other.
\<close>

definition format_choices :: "string list" where
  "format_choices = [''txt'', ''json'', ''csv'']"

definition render :: "string \<Rightarrow> string \<Rightarrow> string list \<Rightarrow> groups \<Rightarrow> error + written list" where
  "render output_format hash_algorithm match_digests file_hashes =
     (if output_format = ''txt'' then
        (if match_digests \<noteq> [] then Inr (echo_matched_digests file_hashes [])
         else Inr (echo_duplicate_files file_hashes hash_algorithm []))
      else if output_format = ''json'' then Inr [Print_json file_hashes 2]
      else if output_format = ''csv'' then Inr (write_csv file_hashes hash_algorithm [])
      else Inl AssertionError)"

text \<open>
  Lines 113 to 139 of \<^verbatim>\<open>main\<close>: filtering, rendering and the exit status, from the
  groups that \<^verbatim>\<open>_file_hashes\<close> returned. The result is what was written to standard
  output and either the exception raised or the exit code: the argument of \<^verbatim>\<open>sys.exit\<close>,
  or 0 when \<^verbatim>\<open>main\<close> returns.
\<close>

definition filter_and_render ::
  "bool \<Rightarrow> string \<Rightarrow> string \<Rightarrow> string list \<Rightarrow> groups \<Rightarrow> written list \<times> (error + nat)" where
  "filter_and_render quiet output_format hash_algorithm match_digests file_hashes =
     (let retained = filter_groups match_digests file_hashes
      in if quiet then ([], Inr (if retained \<noteq> [] then 0 else 1))
         else
           (case render output_format hash_algorithm match_digests retained of
              Inl e \<Rightarrow> ([], Inl e)
            | Inr out \<Rightarrow> (out, Inr (if match_digests \<noteq> [] \<and> retained = [] then 1 else 0))))"

subsection \<open>The glob matcher\<close>

text \<open>
  \<^verbatim>\<open>fnmatch.fnmatch(name, pat)\<close> belongs to the standard library and depends on the
  platform (it applies \<^verbatim>\<open>os.path.normcase\<close> to both arguments). The matcher takes it as
  the parameter \<open>fnmatch\<close>, name first and pattern second.

  \<^verbatim>\<open>str.lower()\<close>: the letters \<^verbatim>\<open>A\<close> to \<^verbatim>\<open>Z\<close> become \<^verbatim>\<open>a\<close> to \<^verbatim>\<open>z\<close>; every other
  character code is kept (the letters beyond ASCII are not modelled).
\<close>

definition char_lower :: "char \<Rightarrow> char" where
  "char_lower c =
     (if CHR ''A'' \<le> c \<and> c \<le> CHR ''Z'' then char_of (of_char c + (32 :: nat)) else c)"

definition str_lower :: "string \<Rightarrow> string" where
  "str_lower s = map char_lower s"

text \<open>\<^verbatim>\<open>class _Matcher\<close>: the attributes \<^verbatim>\<open>negate\<close> and \<^verbatim>\<open>_name_matches\<close>.\<close>

record Matcher =
  negate :: bool
  name_matches :: "string \<Rightarrow> bool"

text \<open>
  \<^verbatim>\<open>_Matcher.__init__(self, glob, case_insensitive)\<close>. A leading \<^verbatim>\<open>!\<close> is removed
  once and sets \<^verbatim>\<open>negate\<close>. In the case-insensitive branch the glob is lowercased and
  the name is passed to \<^verbatim>\<open>fnmatch.fnmatch\<close> as it is.
\<close>

definition Matcher_init :: "(string \<Rightarrow> string \<Rightarrow> bool) \<Rightarrow> string \<Rightarrow> bool \<Rightarrow> Matcher" where
  "Matcher_init fnmatch glob case_insensitive =
     (let (glob1, neg) =
            (if glob \<noteq> [] \<and> hd glob = CHR ''!'' then (drop 1 glob, True) else (glob, False))
      in if case_insensitive then
           (let glob2 = str_lower glob1
            in \<lparr>negate = neg, name_matches = (\<lambda>name. fnmatch name glob2)\<rparr>)
         else \<lparr>negate = neg, name_matches = (\<lambda>name. fnmatch name glob1)\<rparr>)"

text \<open>\<^verbatim>\<open>_Matcher.__call__(self, filename)\<close>.\<close>

definition Matcher_call :: "Matcher \<Rightarrow> string \<Rightarrow> bool" where
  "Matcher_call self filename =
     (if name_matches self filename then \<not> negate self else negate self)"

text \<open>\<^verbatim>\<open>_always_match\<close>.\<close>

definition always_match :: "string \<Rightarrow> bool" where
  "always_match _ = True"

text \<open>
  An instance of the parameter for closed facts: \<^verbatim>\<open>fnmatch.fnmatch\<close> on a POSIX
  platform, where \<^verbatim>\<open>os.path.normcase\<close> is the identity, for patterns made of literal
  characters, \<^verbatim>\<open>*\<close> (any run of characters) and \<^verbatim>\<open>?\<close> (any one character). Bracket
  expressions are not modelled; the facts that use this instance have no \<^verbatim>\<open>[\<close> in their
  patterns. The pattern is the first argument of \<open>glob_match\<close>.
\<close>

fun glob_match :: "string \<Rightarrow> string \<Rightarrow> bool" where
  "glob_match [] name = (name = [])"
| "glob_match (p # ps) [] = (p = CHR ''*'' \<and> glob_match ps [])"
| "glob_match (p # ps) (c # cs) =
     (if p = CHR ''*'' then glob_match ps (c # cs) \<or> glob_match (p # ps) cs
      else if p = CHR ''?'' then glob_match ps cs
      else p = c \<and> glob_match ps cs)"

definition fnmatch_posix :: "string \<Rightarrow> string \<Rightarrow> bool" where
  "fnmatch_posix name pat = glob_match pat name"

subsection \<open>The file system\<close>

text \<open>
  The file system that the collector and the hashing worker see: a tree of directories
  and regular files. A directory lists its entries in the order in which \<^verbatim>\<open>scandir\<close>
  returns them. The tree is the whole file system and the working directory is its
  root. A \<^verbatim>\<open>pathlib.Path\<close> is the list of its components, relative to the working
  directory; \<^verbatim>\<open>pathlib\<close> keeps a component \<^verbatim>\<open>..\<close> as it is. Symbolic links are not
  modelled.
\<close>

type_synonym byte = "8 word"

datatype node = is_File: File "byte list" | is_Dir: Dir "(string \<times> node) list"

type_synonym Path = "string list"

text \<open>
  What a path denotes, if anything, as the operating system resolves it component by
  component. The stack holds the node reached and, above it, its ancestors up to the
  root. A component \<^verbatim>\<open>..\<close> goes to the parent directory and stays at the root when there
  is no parent; any other component is looked up among the entries of the directory
  reached. Nothing can be resolved below a regular file.
\<close>

fun resolve :: "node list \<Rightarrow> Path \<Rightarrow> node option" where
  "resolve [] cs = None"
| "resolve (cur # parents) [] = Some cur"
| "resolve (File content # parents) (c # cs) = None"
| "resolve (Dir entries # parents) (c # cs) =
     (if c = ''..'' then resolve (if parents = [] then [Dir entries] else parents) cs
      else
        (case map_of entries c of
           None \<Rightarrow> None
         | Some n \<Rightarrow> resolve (n # Dir entries # parents) cs))"

definition lookup :: "Path \<Rightarrow> node \<Rightarrow> node option" where
  "lookup p fs = resolve [fs] p"

text \<open>\<^verbatim>\<open>path.is_file()\<close>, \<^verbatim>\<open>path.is_dir()\<close>, \<^verbatim>\<open>path.name\<close>.\<close>

definition Path_is_file :: "node \<Rightarrow> Path \<Rightarrow> bool" where
  "Path_is_file fs p = (case lookup p fs of Some (File _) \<Rightarrow> True | _ \<Rightarrow> False)"

definition Path_is_dir :: "node \<Rightarrow> Path \<Rightarrow> bool" where
  "Path_is_dir fs p = (case lookup p fs of Some (Dir _) \<Rightarrow> True | _ \<Rightarrow> False)"

definition Path_name :: "Path \<Rightarrow> string" where
  "Path_name p = (if p = [] then [] else last p)"

text \<open>
  \<^verbatim>\<open>path.walk()\<close>, top down: for a directory the triple of the directory, the names of
  its subdirectories and the names of its other entries, then the walks of the
  subdirectories in order. Nothing is produced for a path that is not a directory.
\<close>

definition dirnames :: "(string \<times> node) list \<Rightarrow> string list" where
  "dirnames entries = map fst (filter (\<lambda>(name, n). is_Dir n) entries)"

definition filenames :: "(string \<times> node) list \<Rightarrow> string list" where
  "filenames entries = map fst (filter (\<lambda>(name, n). \<not> is_Dir n) entries)"

fun walk_node :: "Path \<Rightarrow> node \<Rightarrow> (Path \<times> string list \<times> string list) list"
  and walk_entries :: "Path \<Rightarrow> (string \<times> node) list \<Rightarrow> (Path \<times> string list \<times> string list) list"
  where
  "walk_node p (File _) = []"
| "walk_node p (Dir entries) = (p, dirnames entries, filenames entries) # walk_entries p entries"
| "walk_entries p [] = []"
| "walk_entries p ((name, n) # entries) =
     (if is_Dir n then walk_node (p @ [name]) n else []) @ walk_entries p entries"

definition Path_walk :: "node \<Rightarrow> Path \<Rightarrow> (Path \<times> string list \<times> string list) list" where
  "Path_walk fs p = (case lookup p fs of Some n \<Rightarrow> walk_node p n | None \<Rightarrow> [])"

text \<open>In a well-formed tree the names of the entries of a directory are distinct.\<close>

fun fs_wf :: "node \<Rightarrow> bool" and entries_wf :: "(string \<times> node) list \<Rightarrow> bool" where
  "fs_wf (File _) = True"
| "fs_wf (Dir entries) = (distinct (map fst entries) \<and> entries_wf entries)"
| "entries_wf [] = True"
| "entries_wf ((name, n) # entries) = (fs_wf n \<and> entries_wf entries)"


subsection \<open>The path collector\<close>

text \<open>
  The iteration over \<^verbatim>\<open>set(paths)\<close>: every distinct element once. The order in which a
  Python set yields its elements is unspecified; this is one such order, and the facts
  about the collector below are about which paths are produced and how often, not about
  their order.
\<close>

definition set_iteration :: "'a list \<Rightarrow> 'a list" where
  "set_iteration xs = remdups xs"

text \<open>
  The inner loop of \<^verbatim>\<open>_collect_file_paths\<close> over the triples of \<^verbatim>\<open>path.walk()\<close>:
  the paths \<^verbatim>\<open>subdir / name\<close> of the file names, all of them when no glob was given,
  otherwise those whose name passes \<^verbatim>\<open>filename_match\<close>.
\<close>

fun collect_walk ::
  "bool \<Rightarrow> (string \<Rightarrow> bool) \<Rightarrow> (Path \<times> string list \<times> string list) list \<Rightarrow> Path list" where
  "collect_walk glob_is_None filename_match [] = []"
| "collect_walk glob_is_None filename_match ((subdir, _, names) # rest) =
     (let file_paths = map (\<lambda>name. subdir @ [name]) names
      in if glob_is_None then file_paths
         else filter (\<lambda>p. filename_match (Path_name p)) file_paths)
     @ collect_walk glob_is_None filename_match rest"

text \<open>The loop \<^verbatim>\<open>for path in set(paths)\<close>, over the elements in iteration order.\<close>

fun collect_loop ::
  "node \<Rightarrow> bool \<Rightarrow> bool \<Rightarrow> (string \<Rightarrow> bool) \<Rightarrow> Path list \<Rightarrow> Path list" where
  "collect_loop fs recursive glob_is_None filename_match [] = []"
| "collect_loop fs recursive glob_is_None filename_match (p # rest) =
     (if Path_is_file fs p then (if filename_match (Path_name p) then [p] else [])
      else if recursive \<and> Path_is_dir fs p then
        collect_walk glob_is_None filename_match (Path_walk fs p)
      else [])
     @ collect_loop fs recursive glob_is_None filename_match rest"

text \<open>\<^verbatim>\<open>_collect_file_paths\<close>: the sequence of the paths that the generator yields.\<close>

definition collect_file_paths ::
  "(string \<Rightarrow> string \<Rightarrow> bool) \<Rightarrow> node \<Rightarrow> Path list \<Rightarrow> bool \<Rightarrow> string option \<Rightarrow> bool \<Rightarrow> Path list" where
  "collect_file_paths fnmatch fs paths recursive glob glob_case_insensitive =
     (let filename_match =
            (case glob of
               None \<Rightarrow> always_match
             | Some g \<Rightarrow> Matcher_call (Matcher_init fnmatch g glob_case_insensitive))
      in collect_loop fs recursive (glob = None) filename_match (set_iteration paths))"

text \<open>A small tree for the closed facts about the collector.\<close>

definition fs_example :: node where
  "fs_example =
     Dir [(''d'', Dir [(''a.txt'', File [1]), (''b.txt'', File [2])]), (''c.txt'', File [3])]"

subsection \<open>The hashing worker\<close>

text \<open>
  \<^verbatim>\<open>str(path)\<close> of a relative path: the components joined by \<^verbatim>\<open>/\<close>, and \<^verbatim>\<open>.\<close> for the
  path without components.
\<close>

definition Path_str :: "Path \<Rightarrow> string" where
  "Path_str p = (if p = [] then ''.'' else str_join ''/'' p)"

text \<open>
  \<^verbatim>\<open>open(path, "rb")\<close> and reading: the operating system splits the string at \<^verbatim>\<open>/\<close>,
  skips empty components and \<^verbatim>\<open>.\<close>, and resolves the rest from the working directory.
  Opening anything but a regular file raises \<^verbatim>\<open>OSError\<close>.
\<close>

fun split_on :: "char \<Rightarrow> string \<Rightarrow> string list" where
  "split_on sep [] = [[]]"
| "split_on sep (c # cs) =
     (if c = sep then [] # split_on sep cs
      else (case split_on sep cs of [] \<Rightarrow> [[c]] | x # xs \<Rightarrow> (c # x) # xs))"

definition open_rb :: "node \<Rightarrow> string \<Rightarrow> error + byte list" where
  "open_rb fs name =
     (case lookup (filter (\<lambda>c. c \<noteq> [] \<and> c \<noteq> ''.'') (split_on CHR ''/'' name)) fs of
        Some (File content) \<Rightarrow> Inr content
      | _ \<Rightarrow> Inl OSError)"

text \<open>
  The loop of \<^verbatim>\<open>_compute_hash\<close>: \<^verbatim>\<open>data = f.read(blocksize)\<close> takes the next
  \<open>blocksize\<close> bytes of what is left of the file (fewer at the end), the loop ends when
  nothing was read, and \<^verbatim>\<open>digest.update(data)\<close> feeds the block to the hash object. The
  hash object is modelled by the bytes fed to it so far.
\<close>

function read_blocks :: "nat \<Rightarrow> byte list \<Rightarrow> byte list \<Rightarrow> byte list" where
  "read_blocks blocksize unread fed =
     (let data = take blocksize unread
      in if data = [] then fed
         else read_blocks blocksize (drop blocksize unread) (fed @ data))"
  by pat_completeness auto
termination
  by (relation "measure (\<lambda>(blocksize, unread, fed). length unread)") auto

declare read_blocks.simps [simp del]

text \<open>
  \<^verbatim>\<open>_compute_hash(path, hash_algorithm, blocksize)\<close>. \<^verbatim>\<open>hashlib.new\<close> is the parameter
  \<open>hashlib_new\<close>: for an algorithm name that the library knows, the function from all the
  bytes fed to a hash object to its \<^verbatim>\<open>hexdigest()\<close>; \<^verbatim>\<open>ValueError\<close> for any other
  name. The hash object is created before the file is opened.
\<close>

definition default_blocksize :: nat where
  "default_blocksize = 0xFFFF"

definition compute_hash ::
  "(string \<Rightarrow> (byte list \<Rightarrow> string) option) \<Rightarrow> node \<Rightarrow> string \<Rightarrow> string \<Rightarrow> nat
    \<Rightarrow> error + HashResult" where
  "compute_hash hashlib_new fs name hash_algorithm blocksize =
     (case hashlib_new hash_algorithm of
        None \<Rightarrow> Inl ValueError
      | Some hexdigest \<Rightarrow>
          (case open_rb fs name of
             Inl e \<Rightarrow> Inl e
           | Inr content \<Rightarrow>
               Inr \<lparr>path = name, digest = hexdigest (read_blocks blocksize content [])\<rparr>))"

subsection \<open>Hashing all candidates\<close>

text \<open>What goes to standard error: a styled line of \<^verbatim>\<open>click.secho(..., err=True)\<close> or
  the progress bar of \<^verbatim>\<open>tqdm\<close> with its description, total and unit.\<close>

datatype diagnostic =
    Secho_err "piece list"
  | Tqdm_bar string nat string

text \<open>
  \<^verbatim>\<open>future.result()\<close> for the futures in the order given: the results up to the first
  future whose worker raised, whose exception is raised again.
\<close>

fun future_results :: "(error + HashResult) list \<Rightarrow> error + HashResult list" where
  "future_results [] = Inr []"
| "future_results (Inl e # rest) = Inl e"
| "future_results (Inr res # rest) =
     (case future_results rest of Inl e \<Rightarrow> Inl e | Inr results \<Rightarrow> Inr (res # results))"

text \<open>
  \<^verbatim>\<open>_file_hashes\<close>. A future is modelled by the outcome of its worker. \<open>as_completed\<close>
  is the order in which the pool completes the futures, a parameter: the library
  promises only that every future comes once. The record holds the jobs submitted to the
  pool (the path strings), what was written to standard error, and the mapping returned
  or the exception raised. An exception of \<^verbatim>\<open>future.result()\<close> leaves the loop and the
  function.
\<close>

record hashes_run =
  submitted :: "string list"
  diagnostics :: "diagnostic list"
  result :: "error + groups"

definition file_hashes ::
  "(string \<Rightarrow> (byte list \<Rightarrow> string) option) \<Rightarrow> node
    \<Rightarrow> ((error + HashResult) list \<Rightarrow> (error + HashResult) list)
    \<Rightarrow> string \<Rightarrow> Path list \<Rightarrow> bool \<Rightarrow> hashes_run" where
  "file_hashes hashlib_new fs as_completed hash_algorithm paths show_progress =
     (let futures =
            map (\<lambda>p. compute_hash hashlib_new fs (Path_str p) hash_algorithm default_blocksize)
              paths
      in if futures = [] then
           \<lparr>submitted = [],
            diagnostics = [Secho_err [Style ''Warning: no files passed'' Yellow True]],
            result = Inr []\<rparr>
         else
           (let completed_futures = as_completed futures
            in \<lparr>submitted = map Path_str paths,
                diagnostics =
                  (if show_progress then
                     [Tqdm_bar (''Computing '' @ hash_algorithm @ '' hashes'') (length futures)
                        ''files'']
                   else []),
                result =
                  (case future_results completed_futures of
                     Inl e \<Rightarrow> Inl e
                   | Inr results \<Rightarrow> Inr (aggregate results))\<rparr>))"

subsection \<open>The command\<close>

text \<open>
  What \<^verbatim>\<open>main\<close> depends on outside the program: the library functions
  \<^verbatim>\<open>fnmatch.fnmatch\<close> and \<^verbatim>\<open>hashlib.new\<close>, the completion order of the pool and the file
  system.
\<close>

record platform =
  lib_fnmatch :: "string \<Rightarrow> string \<Rightarrow> bool"
  lib_hashlib_new :: "string \<Rightarrow> (byte list \<Rightarrow> string) option"
  pool_as_completed :: "(error + HashResult) list \<Rightarrow> (error + HashResult) list"
  os_fs :: node

record main_run =
  run_submitted :: "string list"
  run_stderr :: "diagnostic list"
  run_stdout :: "written list"
  run_status :: "error + nat"

text \<open>
  \<^verbatim>\<open>main\<close>, with the parameters as \<^verbatim>\<open>click\<close> passes them. \<^verbatim>\<open>jobs\<close> sizes the pool
  and has no part in the result.
\<close>

definition main ::
  "platform \<Rightarrow> Path list \<Rightarrow> nat option \<Rightarrow> bool \<Rightarrow> string \<Rightarrow> string \<Rightarrow> string list \<Rightarrow> bool
    \<Rightarrow> bool \<Rightarrow> string option \<Rightarrow> bool \<Rightarrow> main_run" where
  "main pf paths jobs quiet output_format hash_algorithm match_digests show_progress recursive
     glob glob_case_insensitive =
     (let show_progress1 = (if quiet then False else show_progress);
          hr = file_hashes (lib_hashlib_new pf) (os_fs pf) (pool_as_completed pf) hash_algorithm
                 (collect_file_paths (lib_fnmatch pf) (os_fs pf) paths recursive glob
                    glob_case_insensitive)
                 show_progress1
      in case result hr of
           Inl e \<Rightarrow>
             \<lparr>run_submitted = submitted hr, run_stderr = diagnostics hr, run_stdout = [],
              run_status = Inl e\<rparr>
         | Inr file_hashes1 \<Rightarrow>
             (case filter_and_render quiet output_format hash_algorithm match_digests
                     file_hashes1 of
                (out, status) \<Rightarrow>
                  \<lparr>run_submitted = submitted hr, run_stderr = diagnostics hr, run_stdout = out,
                   run_status = status\<rparr>))"

subsection \<open>MD5\<close>

text \<open>
  \<^verbatim>\<open>hashlib\<close>'s \<^verbatim>\<open>md5\<close> is the MD5 message digest of RFC 1321; it is library code. The
  definitions follow the RFC: the padding to a multiple of 64 bytes with the length in
  bits, the four rounds of sixteen steps on little-endian 32-bit words, and the digest
  as the sixteen bytes of the four state words, written in lowercase hexadecimal.
\<close>

definition md5_s :: "nat list" where
  "md5_s = [7, 12, 17, 22, 7, 12, 17, 22, 7, 12, 17, 22, 7, 12, 17, 22,
            5, 9, 14, 20, 5, 9, 14, 20, 5, 9, 14, 20, 5, 9, 14, 20,
            4, 11, 16, 23, 4, 11, 16, 23, 4, 11, 16, 23, 4, 11, 16, 23,
            6, 10, 15, 21, 6, 10, 15, 21, 6, 10, 15, 21, 6, 10, 15, 21]"

definition md5_K :: "32 word list" where
  "md5_K = [0xd76aa478, 0xe8c7b756, 0x242070db, 0xc1bdceee,
            0xf57c0faf, 0x4787c62a, 0xa8304613, 0xfd469501,
            0x698098d8, 0x8b44f7af, 0xffff5bb1, 0x895cd7be,
            0x6b901122, 0xfd987193, 0xa679438e, 0x49b40821,
            0xf61e2562, 0xc040b340, 0x265e5a51, 0xe9b6c7aa,
            0xd62f105d, 0x02441453, 0xd8a1e681, 0xe7d3fbc8,
            0x21e1cde6, 0xc33707d6, 0xf4d50d87, 0x455a14ed,
            0xa9e3e905, 0xfcefa3f8, 0x676f02d9, 0x8d2a4c8a,
            0xfffa3942, 0x8771f681, 0x6d9d6122, 0xfde5380c,
            0xa4beea44, 0x4bdecfa9, 0xf6bb4b60, 0xbebfbc70,
            0x289b7ec6, 0xeaa127fa, 0xd4ef3085, 0x04881d05,
            0xd9d4d039, 0xe6db99e5, 0x1fa27cf8, 0xc4ac5665,
            0xf4292244, 0x432aff97, 0xab9423a7, 0xfc93a039,
            0x655b59c3, 0x8f0ccc92, 0xffeff47d, 0x85845dd1,
            0x6fa87e4f, 0xfe2ce6e0, 0xa3014314, 0x4e0811a1,
            0xf7537e82, 0xbd3af235, 0x2ad7d2bb, 0xeb86d391]"

definition rotl32 :: "32 word \<Rightarrow> nat \<Rightarrow> 32 word" where
  "rotl32 w n = push_bit n w OR drop_bit (32 - n) w"

definition le_bytes32 :: "32 word \<Rightarrow> byte list" where
  "le_bytes32 w = map (\<lambda>i. ucast (drop_bit (8 * i) w)) [0..<4]"

definition le_bytes64 :: "64 word \<Rightarrow> byte list" where
  "le_bytes64 w = map (\<lambda>i. ucast (drop_bit (8 * i) w)) [0..<8]"

definition le_word :: "byte list \<Rightarrow> 32 word" where
  "le_word bs = foldr (\<lambda>b w. ucast b OR push_bit 8 w) bs 0"

definition chunks :: "nat \<Rightarrow> 'a list \<Rightarrow> 'a list list" where
  "chunks n xs = map (\<lambda>i. take n (drop (i * n) xs)) [0..<length xs div n]"

definition md5_pad :: "byte list \<Rightarrow> byte list" where
  "md5_pad msg =
     msg @ [0x80] @ replicate ((119 - length msg mod 64) mod 64) 0 @ le_bytes64 (push_bit 3 (of_nat (length msg)))"

type_synonym md5_state = "32 word \<times> 32 word \<times> 32 word \<times> 32 word"

definition md5_step :: "32 word list \<Rightarrow> nat \<Rightarrow> md5_state \<Rightarrow> md5_state" where
  "md5_step M i st =
     (case st of (a, b, c, d) \<Rightarrow>
        (let (f, g) =
               (if i < 16 then ((b AND c) OR (NOT b AND d), i)
                else if i < 32 then ((d AND b) OR (NOT d AND c), (5 * i + 1) mod 16)
                else if i < 48 then (b XOR c XOR d, (3 * i + 5) mod 16)
                else (c XOR (b OR NOT d), (7 * i) mod 16))
         in (d, b + rotl32 (f + a + md5_K ! i + M ! g) (md5_s ! i), b, c)))"

definition md5_block :: "byte list \<Rightarrow> md5_state \<Rightarrow> md5_state" where
  "md5_block block st =
     (case st of (a0, b0, c0, d0) \<Rightarrow>
        (case fold (md5_step (map le_word (chunks 4 block))) [0..<64] st of
           (a, b, c, d) \<Rightarrow> (a0 + a, b0 + b, c0 + c, d0 + d)))"

definition md5_init :: md5_state where
  "md5_init = (0x67452301, 0xefcdab89, 0x98badcfe, 0x10325476)"

definition md5_digest :: "byte list \<Rightarrow> byte list" where
  "md5_digest msg =
     (case fold md5_block (chunks 64 (md5_pad msg)) md5_init of
        (a, b, c, d) \<Rightarrow> concat (map le_bytes32 [a, b, c, d]))"

definition hex_digit :: "nat \<Rightarrow> char" where
  "hex_digit n = (if n < 10 then char_of (48 + n) else char_of (87 + n))"

definition hex_byte :: "byte \<Rightarrow> string" where
  "hex_byte b = [hex_digit (unat b div 16), hex_digit (unat b mod 16)]"

definition md5_hexdigest :: "byte list \<Rightarrow> string" where
  "md5_hexdigest msg = concat (map hex_byte (md5_digest msg))"

text \<open>An instance of \<^verbatim>\<open>hashlib.new\<close> that knows \<^verbatim>\<open>md5\<close>.\<close>

definition hashlib_md5 :: "string \<Rightarrow> (byte list \<Rightarrow> string) option" where
  "hashlib_md5 name = (if name = ''md5'' then Some md5_hexdigest else None)"

text \<open>Scenario A: two files \<^verbatim>\<open>a.txt\<close> and \<^verbatim>\<open>b.txt\<close> with the content \<^verbatim>\<open>hello\<close>.\<close>

definition hello :: "byte list" where
  "hello = [0x68, 0x65, 0x6c, 0x6c, 0x6f]"

definition fs_scenario_A :: node where
  "fs_scenario_A = Dir [(''a.txt'', File hello), (''b.txt'', File hello)]"

text \<open>
  A directory \<^verbatim>\<open>d\<close> with the single file \<^verbatim>\<open>a.txt\<close> and an empty directory \<^verbatim>\<open>e\<close>
  beside it, on a POSIX platform with \<^verbatim>\<open>md5\<close>, where the pool completes the futures in
  the order of submission.
\<close>

definition fs_overlap :: node where
  "fs_overlap = Dir [(''d'', Dir [(''a.txt'', File hello)]), (''e'', Dir [])]"

definition platform_overlap :: platform where
  "platform_overlap =
     \<lparr>lib_fnmatch = fnmatch_posix, lib_hashlib_new = hashlib_md5,
      pool_as_completed = (\<lambda>futures. futures), os_fs = fs_overlap\<rparr>"

section \<open>Properties\<close>

subsection \<open>Dictionaries\<close>

lemma dict_comp_loop_filter:
  assumes "distinct (map fst acc @ map (\<lambda>kv. fst (item kv)) kvs)"
  shows "dict_comp_loop cond item kvs acc = acc @ map item (filter cond kvs)"
  using assms
proof (induction kvs arbitrary: acc)
  case Nil
  then show ?case by simp
next
  case (Cons kv kvs)
  have fresh: "fst (item kv) \<notin> fst ` set acc"
    using Cons.prems by auto
  have upd: "AList.update (fst (item kv)) (snd (item kv)) acc = acc @ [item kv]"
    using fresh by (induction acc) auto
  show ?case
  proof (cases "cond kv")
    case True
    have "distinct (map fst (acc @ [item kv]) @ map (\<lambda>kv. fst (item kv)) kvs)"
      using Cons.prems by auto
    from Cons.IH [OF this] True upd show ?thesis by simp
  next
    case False
    have "distinct (map fst acc @ map (\<lambda>kv. fst (item kv)) kvs)"
      using Cons.prems by auto
    from Cons.IH [OF this] False show ?thesis by simp
  qed
qed

lemma dict_comp_filter:
  assumes "dict_wf d" and "\<And>kv. fst (item kv) = fst kv"
  shows "dict_comp cond item d = map item (filter cond d)"
proof -
  have "(\<lambda>kv. fst (item kv)) = fst"
    using assms(2) by auto
  then have "distinct (map fst ([] :: ('a \<times> 'c) list) @ map (\<lambda>kv. fst (item kv)) d)"
    using assms(1) by (simp only: dict_wf_def list.map append_Nil)
  from dict_comp_loop_filter [OF this] show ?thesis
    by (simp add: dict_comp_def)
qed

subsection \<open>Aggregation\<close>

lemma add_result_wf: "dict_wf hashes \<Longrightarrow> dict_wf (add_result hashes res)"
  by (auto simp: dict_wf_def add_result_def dict_setdefault_def distinct_update
      split: option.splits)

lemma map_of_add_result:
  "map_of (add_result hashes res) =
     (map_of hashes)(digest res \<mapsto>
        (case map_of hashes (digest res) of None \<Rightarrow> [] | Some ps \<Rightarrow> ps) @ [path res])"
  by (auto simp: add_result_def dict_setdefault_def update_conv' split: option.splits)

lemma aggregate_loop_wf: "dict_wf hashes \<Longrightarrow> dict_wf (aggregate_loop hashes results)"
  by (induction results arbitrary: hashes) (auto simp: add_result_wf)

lemma map_of_aggregate_loop:
  "map_of (aggregate_loop hashes results) d =
     (case map_of hashes d of
        None \<Rightarrow> if d \<in> digest ` set results then Some (paths_of d results) else None
      | Some ps \<Rightarrow> Some (ps @ paths_of d results))"
proof (induction results arbitrary: hashes)
  case Nil
  then show ?case by (simp add: paths_of_def split: option.splits)
next
  case (Cons res rest)
  show ?case
    by (simp add: Cons.IH map_of_add_result paths_of_def split: option.splits)
qed

lemma aggregate_eq:
  "aggregate results = map (\<lambda>(d, paths). (d, sorted_py paths)) (aggregate_loop [] results)"
proof -
  have wf: "dict_wf (aggregate_loop [] results)"
    by (rule aggregate_loop_wf) (simp add: dict_wf_def)
  have "dict_comp (\<lambda>_. True) (\<lambda>(d, paths). (d, sorted_py paths)) (aggregate_loop [] results)
      = map (\<lambda>(d, paths). (d, sorted_py paths)) (filter (\<lambda>_. True) (aggregate_loop [] results))"
    by (rule dict_comp_filter [OF wf]) (simp add: case_prod_beta)
  then show ?thesis by (simp add: aggregate_def)
qed

lemma map_of_aggregate:
  "map_of (aggregate results) d =
     (if d \<in> digest ` set results then Some (sorted_py (paths_of d results)) else None)"
proof -
  have "map_of (aggregate results) d = map_option sorted_py (map_of (aggregate_loop [] results) d)"
    unfolding aggregate_eq by (simp add: map_of_map)
  then show ?thesis by (simp add: map_of_aggregate_loop)
qed

lemma aggregate_wf: "dict_wf (aggregate results)"
proof -
  have wf: "dict_wf (aggregate_loop [] results)"
    by (rule aggregate_loop_wf) (simp add: dict_wf_def)
  have "map fst (aggregate results) = map fst (aggregate_loop [] results)"
    unfolding aggregate_eq by (simp add: case_prod_beta)
  with wf show ?thesis by (simp add: dict_wf_def)
qed

lemma sorted_py_mset_cong: "mset xs = mset ys \<Longrightarrow> sorted_py xs = sorted_py ys"
  unfolding sorted_py_def by (rule properties_for_sort) simp_all

lemma paths_of_mset_cong:
  "mset rs' = mset rs \<Longrightarrow> mset (paths_of d rs') = mset (paths_of d rs)"
  by (simp add: paths_of_def)


lemma aggregate_loop_snoc:
  "aggregate_loop hashes (results @ [res]) = add_result (aggregate_loop hashes results) res"
  by (induction results arbitrary: hashes) simp_all

lemma aggregate_loop_take_Suc:
  assumes "n < length results"
  shows "aggregate_loop [] (take (Suc n) results) =
           add_result (aggregate_loop [] (take n results)) (results ! n)"
  using assms by (simp add: take_Suc_conv_app_nth aggregate_loop_snoc)

lemma keys_aggregate_loop:
  "fst ` set (aggregate_loop [] results) = digest ` set results"
proof -
  have "dom (map_of (aggregate_loop [] results)) = digest ` set results"
    by (auto simp: dom_def map_of_aggregate_loop)
  then show ?thesis by (simp add: dom_map_of_conv_image_fst)
qed

lemma values_aggregate_loop:
  assumes "(d, ps) \<in> set (aggregate_loop [] results)"
  shows "ps = paths_of d results \<and> d \<in> digest ` set results"
proof -
  have wf: "distinct (map fst (aggregate_loop [] results))"
    using aggregate_loop_wf [of "[]" results] by (simp add: dict_wf_def)
  from map_of_is_SomeI [OF wf assms] show ?thesis
    by (simp add: map_of_aggregate_loop split: if_splits)
qed

lemma paths_of_nonempty: "d \<in> digest ` set results \<Longrightarrow> paths_of d results \<noteq> []"
  by (auto simp: paths_of_def filter_empty_conv)

lemma add_result_cases:
  "add_result hashes res =
     (case map_of hashes (digest res) of
        None \<Rightarrow> hashes @ [(digest res, [path res])]
      | Some ps \<Rightarrow> AList.update (digest res) (ps @ [path res]) hashes)"
proof (cases "map_of hashes (digest res)")
  case None
  then have fresh: "digest res \<notin> fst ` set hashes"
    by (simp add: map_of_eq_None_iff)
  have "AList.update (digest res) ([] @ [path res]) (AList.update (digest res) [] hashes)
      = hashes @ [(digest res, [path res])]"
    using fresh by (induction hashes) auto
  with None show ?thesis
    by (simp add: add_result_def dict_setdefault_def)
next
  case (Some ps)
  then show ?thesis
    by (simp add: add_result_def dict_setdefault_def)
qed

lemma sorted_py_eq_Nil: "sorted_py ps = [] \<longleftrightarrow> ps = []"
proof -
  have "length (sorted_py ps) = length ps"
    by (simp add: sorted_py_def)
  then show ?thesis
    by (metis length_0_conv)
qed

subsection \<open>Filtering and rendering\<close>

lemma filter_groups_eq:
  assumes "dict_wf hashes"
  shows "filter_groups match_digests hashes =
    (if match_digests \<noteq> [] then filter (\<lambda>(d, paths). d \<in> set match_digests) hashes
     else filter (\<lambda>(d, paths). length paths > 1) hashes)"
proof -
  have keep: "map (\<lambda>(d, paths). (d, paths)) xs = xs" for xs :: groups
    by (induction xs) auto
  have "dict_comp cond (\<lambda>(d, paths). (d, paths)) hashes = filter cond hashes"
    for cond :: "string \<times> string list \<Rightarrow> bool"
    using dict_comp_filter [OF assms, of "\<lambda>(d, paths). (d, paths)" cond]
    by (simp add: case_prod_beta)
  then show ?thesis
    by (simp add: filter_groups_def)
qed

lemma write_csv_files_eq:
  "write_csv_files d files f = f @ map (\<lambda>file. Csv_row [d, file]) files"
  by (induction files arbitrary: f) simp_all

lemma write_csv_groups_eq:
  "write_csv_groups identical f =
     f @ concat (map (\<lambda>(d, files). map (\<lambda>file. Csv_row [d, file]) files) identical)"
  by (induction identical arbitrary: f) (auto simp: write_csv_files_eq)

lemma write_csv_eq:
  "write_csv identical hash_algorithm f =
     f @ Csv_row [hash_algorithm, ''path'']
       # concat (map (\<lambda>(d, files). map (\<lambda>file. Csv_row [d, file]) files) identical)"
  by (simp add: write_csv_def write_csv_groups_eq)

lemma render_choice:
  assumes "output_format \<in> set format_choices"
  shows "\<exists>out. render output_format hash_algorithm match_digests hashes = Inr out"
  using assms by (auto simp: format_choices_def render_def)

subsection \<open>The path collector\<close>

lemma collect_walk_append:
  "collect_walk g m (a @ b) = collect_walk g m a @ collect_walk g m b"
  by (induction a) (auto simp: Let_def)

lemma collect_walk_under:
  "q \<in> set (collect_walk g m (walk_node p n)) \<Longrightarrow> \<exists>r. r \<noteq> [] \<and> q = p @ r"
  "q \<in> set (collect_walk g m (walk_entries p es)) \<Longrightarrow>
     \<exists>name r. name \<in> fst ` set es \<and> r \<noteq> [] \<and> q = p @ name # r"
proof (induction p n and p es arbitrary: q and q rule: walk_node_walk_entries.induct)
  case (1 p uu)
  then show ?case by simp
next
  case (2 p entries)
  from "2.prems" have "q \<in> (\<lambda>name. p @ [name]) ` set (filenames entries)
      \<or> q \<in> set (collect_walk g m (walk_entries p entries))"
    by (auto simp: Let_def split: if_splits)
  then show ?case
  proof
    assume "q \<in> (\<lambda>name. p @ [name]) ` set (filenames entries)"
    then show ?thesis by auto
  next
    assume "q \<in> set (collect_walk g m (walk_entries p entries))"
    from "2.IH" [OF this] show ?thesis by auto
  qed
next
  case (3 p)
  then show ?case by simp
next
  case (4 p name n entries)
  from "4.prems" have "(is_Dir n \<and> q \<in> set (collect_walk g m (walk_node (p @ [name]) n)))
      \<or> q \<in> set (collect_walk g m (walk_entries p entries))"
    by (auto simp: collect_walk_append split: if_splits)
  then show ?case
  proof
    assume a: "is_Dir n \<and> q \<in> set (collect_walk g m (walk_node (p @ [name]) n))"
    then obtain r where "r \<noteq> []" "q = (p @ [name]) @ r"
      using "4.IH"(1) by blast
    then show ?thesis by auto
  next
    assume "q \<in> set (collect_walk g m (walk_entries p entries))"
    from "4.IH"(2) [OF this] show ?thesis by auto
  qed
qed

lemma distinct_filenames: "distinct (map fst es) \<Longrightarrow> distinct (filenames es)"
  by (simp add: filenames_def distinct_map_filter)

lemma collect_walk_distinct:
  "fs_wf n \<Longrightarrow> distinct (collect_walk g m (walk_node p n))"
  "entries_wf es \<Longrightarrow> distinct (map fst es) \<Longrightarrow> distinct (collect_walk g m (walk_entries p es))"
proof (induction p n and p es rule: walk_node_walk_entries.induct)
  case (1 p uu)
  then show ?case by simp
next
  case (2 p entries)
  let ?fp = "map (\<lambda>name. p @ [name]) (filenames entries)"
  have d1: "distinct ?fp"
    using "2.prems" by (simp add: distinct_map distinct_filenames inj_on_def)
  have d2: "distinct (collect_walk g m (walk_entries p entries))"
    using "2.IH" "2.prems" by simp
  have disj: "set ?fp \<inter> set (collect_walk g m (walk_entries p entries)) = {}"
    using collect_walk_under(2) [of _ g m p entries] by fastforce
  from d1 d2 disj show ?case
    by (auto simp: Let_def)
next
  case (3 p)
  then show ?case by simp
next
  case (4 p name n entries)
  have fresh: "name \<notin> fst ` set entries" and wf_n: "fs_wf n"
    and wf_es: "entries_wf entries" "distinct (map fst entries)"
    using "4.prems" by auto
  have d2: "distinct (collect_walk g m (walk_entries p entries))"
    using "4.IH"(2) wf_es by simp
  show ?case
  proof (cases "is_Dir n")
    case True
    have d1: "distinct (collect_walk g m (walk_node (p @ [name]) n))"
      using "4.IH"(1) [OF True wf_n] .
    have disj: "set (collect_walk g m (walk_node (p @ [name]) n))
        \<inter> set (collect_walk g m (walk_entries p entries)) = {}"
    proof (rule ccontr)
      assume "\<not> ?thesis"
      then obtain q where q1: "q \<in> set (collect_walk g m (walk_node (p @ [name]) n))"
        and q2: "q \<in> set (collect_walk g m (walk_entries p entries))"
        by blast
      from collect_walk_under(1) [OF q1] obtain r where "q = (p @ [name]) @ r"
        by blast
      moreover from collect_walk_under(2) [OF q2] obtain name' r'
        where "name' \<in> fst ` set entries" "q = p @ name' # r'"
        by blast
      ultimately show False using fresh by auto
    qed
    from True d1 d2 disj show ?thesis
      by (simp add: collect_walk_append)
  next
    case False
    with d2 show ?thesis by simp
  qed
qed

lemma entries_wf_member: "entries_wf es \<Longrightarrow> (c, n) \<in> set es \<Longrightarrow> fs_wf n"
  by (induction es) auto

lemma resolve_wf: "list_all fs_wf stack \<Longrightarrow> resolve stack p = Some n \<Longrightarrow> fs_wf n"
proof (induction stack p rule: resolve.induct)
  case (1 cs)
  then show ?case by simp
next
  case (2 cur parents)
  then show ?case by simp
next
  case (3 content parents c cs)
  then show ?case by simp
next
  case (4 entries parents c cs)
  show ?case
  proof (cases "c = ''..''")
    case True
    have "list_all fs_wf (if parents = [] then [Dir entries] else parents)"
      using "4.prems"(1) by simp
    moreover have "resolve (if parents = [] then [Dir entries] else parents) cs = Some n"
      using "4.prems"(2) True by simp
    ultimately show ?thesis
      using "4.IH"(1) [OF True] by blast
  next
    case False
    with "4.prems"(2) obtain n' where look: "map_of entries c = Some n'"
      and rest: "resolve (n' # Dir entries # parents) cs = Some n"
      by (auto split: option.splits)
    have "fs_wf n'"
      using "4.prems"(1) map_of_SomeD [OF look] entries_wf_member by auto
    with "4.prems"(1) have "list_all fs_wf (n' # Dir entries # parents)"
      by simp
    from "4.IH"(2) [OF False look this rest] show ?thesis .
  qed
qed

lemma lookup_wf: "fs_wf fs \<Longrightarrow> lookup p fs = Some n \<Longrightarrow> fs_wf n"
  unfolding lookup_def by (rule resolve_wf [of "[fs]"]) simp_all

lemma collect_loop_Cons:
  "collect_loop fs r g m (p # rest) = collect_loop fs r g m [p] @ collect_loop fs r g m rest"
  by simp

lemma collect_single_cases:
  assumes "q \<in> set (collect_loop fs r g m [p])"
  shows "q = p \<or> (r \<and> (\<exists>t. t \<noteq> [] \<and> q = p @ t))"
proof (cases "Path_is_file fs p")
  case True
  with assms show ?thesis by (auto split: if_splits)
next
  case False
  with assms have r: r and q: "q \<in> set (collect_walk g m (Path_walk fs p))"
    by (auto split: if_splits)
  from q obtain n where "q \<in> set (collect_walk g m (walk_node p n))"
    by (auto simp: Path_walk_def split: option.splits)
  from collect_walk_under(1) [OF this] r show ?thesis by blast
qed

lemma collect_single_distinct:
  assumes "fs_wf fs"
  shows "distinct (collect_loop fs r g m [p])"
proof (cases "lookup p fs")
  case None
  then show ?thesis by (simp add: Path_walk_def)
next
  case (Some n)
  from lookup_wf [OF assms Some] have "distinct (collect_walk g m (walk_node p n))"
    by (rule collect_walk_distinct(1))
  with Some show ?thesis by (simp add: Path_walk_def)
qed

lemma collect_loop_mem:
  "q \<in> set (collect_loop fs r g m roots) \<Longrightarrow> \<exists>p\<in>set roots. q \<in> set (collect_loop fs r g m [p])"
proof (induction roots)
  case Nil
  then show ?case by simp
next
  case (Cons p roots)
  from Cons.prems have "q \<in> set (collect_loop fs r g m [p] @ collect_loop fs r g m roots)"
    by (subst (asm) collect_loop_Cons)
  then have "q \<in> set (collect_loop fs r g m [p]) \<or> q \<in> set (collect_loop fs r g m roots)"
    by (simp del: collect_loop.simps)
  with Cons.IH show ?case
    by (auto simp del: collect_loop.simps)
qed

lemma collect_loop_distinct:
  assumes "fs_wf fs" and "distinct roots"
    and "r \<longrightarrow> (\<forall>a\<in>set roots. \<forall>b\<in>set roots. a \<noteq> b \<longrightarrow> \<not> prefix a b)"
  shows "distinct (collect_loop fs r g m roots)"
  using assms(2,3)
proof (induction roots)
  case Nil
  then show ?case by simp
next
  case (Cons p roots)
  have d1: "distinct (collect_loop fs r g m [p])"
    by (rule collect_single_distinct [OF assms(1)])
  have d2: "distinct (collect_loop fs r g m roots)"
    using Cons by auto
  have disj: "set (collect_loop fs r g m [p]) \<inter> set (collect_loop fs r g m roots) = {}"
  proof (rule ccontr)
    assume "\<not> ?thesis"
    then obtain q where q1: "q \<in> set (collect_loop fs r g m [p])"
      and "q \<in> set (collect_loop fs r g m roots)"
      by blast
    then obtain p' where p': "p' \<in> set roots" and q2: "q \<in> set (collect_loop fs r g m [p'])"
      using collect_loop_mem by blast
    have neq: "p \<noteq> p'"
      using Cons.prems(1) p' by auto
    from collect_single_cases [OF q1] collect_single_cases [OF q2] neq
    have r: r and "prefix p q" and "prefix p' q"
      by (auto simp: prefix_def)
    then have "prefix p p' \<or> prefix p' p"
      by (auto dest: prefix_same_cases)
    with r Cons.prems(2) p' neq show False
      by auto
  qed
  from d1 d2 disj show ?case
    by (subst collect_loop_Cons) simp
qed

lemma mset_collect_loop:
  "mset (collect_loop fs r g m roots) = (\<Sum>p\<in>#mset roots. mset (collect_loop fs r g m [p]))"
proof (induction roots)
  case Nil
  then show ?case by simp
next
  case (Cons p roots)
  then show ?case
    by (subst collect_loop_Cons) simp
qed

subsection \<open>Hashing\<close>

lemma read_blocks_all:
  "0 < blocksize \<Longrightarrow> read_blocks blocksize unread fed = fed @ unread"
proof (induction blocksize unread fed rule: read_blocks.induct)
  case (1 blocksize unread fed)
  show ?case
  proof (cases "take blocksize unread = []")
    case True
    with "1.prems" have "unread = []" by auto
    then show ?thesis by (simp add: read_blocks.simps)
  next
    case False
    from "1.IH" [OF refl False "1.prems"] False show ?thesis
      by (subst read_blocks.simps) (simp add: Let_def)
  qed
qed

lemma compute_hash_digest:
  assumes "hashlib_new hash_algorithm = Some hexdigest" and "open_rb fs name = Inr content"
  shows "compute_hash hashlib_new fs name hash_algorithm default_blocksize
           = Inr \<lparr>path = name, digest = hexdigest content\<rparr>"
  using assms by (simp add: compute_hash_def read_blocks_all default_blocksize_def)

lemma md5_hello: "md5_hexdigest hello = ''5d41402abc4b2a76b9719d911017c592''"
  by code_simp

lemma future_results_Inr: "future_results (map Inr results) = Inr results"
  by (induction results) simp_all

lemma pair_permutations:
  assumes "mset ys = mset [a, b]"
  shows "ys = [a, b] \<or> ys = [b, a]"
proof -
  from assms have "length ys = 2"
    using mset_eq_length by fastforce
  then obtain c d where ys: "ys = [c, d]"
    by (auto simp: length_Suc_conv numeral_2_eq_2)
  with assms show ?thesis
    by (auto simp: add_eq_conv_ex)
qed

lemma scenario_A_futures:
  "map (\<lambda>p. compute_hash hashlib_md5 fs_scenario_A (Path_str p) ''md5'' default_blocksize)
     [[''a.txt''], [''b.txt'']]
   = [Inr \<lparr>path = ''a.txt'', digest = ''5d41402abc4b2a76b9719d911017c592''\<rparr>,
      Inr \<lparr>path = ''b.txt'', digest = ''5d41402abc4b2a76b9719d911017c592''\<rparr>]"
proof -
  have md5: "hashlib_md5 ''md5'' = Some md5_hexdigest"
    by (simp add: hashlib_md5_def)
  have a: "open_rb fs_scenario_A ''a.txt'' = Inr hello"
    by (simp add: open_rb_def lookup_def fs_scenario_A_def)
  have b: "open_rb fs_scenario_A ''b.txt'' = Inr hello"
    by (simp add: open_rb_def lookup_def fs_scenario_A_def)
  show ?thesis
    by (simp add: Path_str_def md5_hello
        compute_hash_digest [where hashlib_new = hashlib_md5 and hexdigest = md5_hexdigest,
          OF md5 a]
        compute_hash_digest [where hashlib_new = hashlib_md5 and hexdigest = md5_hexdigest,
          OF md5 b])
qed

lemma scenario_A_aggregate:
  "aggregate [\<lparr>path = ''a.txt'', digest = ''5d41402abc4b2a76b9719d911017c592''\<rparr>,
              \<lparr>path = ''b.txt'', digest = ''5d41402abc4b2a76b9719d911017c592''\<rparr>]
     = [(''5d41402abc4b2a76b9719d911017c592'', [''a.txt'', ''b.txt''])]"
  "aggregate [\<lparr>path = ''b.txt'', digest = ''5d41402abc4b2a76b9719d911017c592''\<rparr>,
              \<lparr>path = ''a.txt'', digest = ''5d41402abc4b2a76b9719d911017c592''\<rparr>]
     = [(''5d41402abc4b2a76b9719d911017c592'', [''a.txt'', ''b.txt''])]"
  by code_simp+

lemma main_without_candidates:
  assumes "collect_file_paths (lib_fnmatch pf) (os_fs pf) paths recursive glob
             glob_case_insensitive = []"
  shows "run_status (main pf paths jobs True output_format hash_algorithm match_digests
                       show_progress recursive glob glob_case_insensitive) = Inr 1 \<and>
         run_stdout (main pf paths jobs True output_format hash_algorithm match_digests
                       show_progress recursive glob glob_case_insensitive) = []"
  using assms
  by (simp add: main_def file_hashes_def filter_and_render_def filter_groups_def dict_comp_def)

lemma roots_are_deduplicated:
  assumes "fs_wf fs"
  shows "(set paths' = set paths \<longrightarrow>
            mset (collect_file_paths fnmatch fs paths' recursive glob ci)
              = mset (collect_file_paths fnmatch fs paths recursive glob ci)) \<and>
         ((recursive \<longrightarrow> (\<forall>a\<in>set paths. \<forall>b\<in>set paths. a \<noteq> b \<longrightarrow> \<not> prefix a b)) \<longrightarrow>
            distinct (collect_file_paths fnmatch fs paths recursive glob ci))"
proof -
  have "mset (set_iteration paths') = mset (set_iteration paths)" if "set paths' = set paths"
    using that by (simp add: set_iteration_def set_eq_iff_mset_remdups_eq)
  then have part1: "set paths' = set paths \<longrightarrow>
            mset (collect_file_paths fnmatch fs paths' recursive glob ci)
              = mset (collect_file_paths fnmatch fs paths recursive glob ci)"
    by (simp add: collect_file_paths_def Let_def mset_collect_loop)
  have part2: "distinct (collect_file_paths fnmatch fs paths recursive glob ci)"
    if "recursive \<longrightarrow> (\<forall>a\<in>set paths. \<forall>b\<in>set paths. a \<noteq> b \<longrightarrow> \<not> prefix a b)"
    unfolding collect_file_paths_def Let_def
    by (rule collect_loop_distinct [OF assms]) (use that in \<open>simp_all add: set_iteration_def\<close>)
  from part1 part2 show ?thesis by blast
qed

lemma overlap_collect:
  "collect_file_paths fnmatch_posix fs_overlap [[''d''], [''d'', ''a.txt'']] True None False
     = [[''d'', ''a.txt''], [''d'', ''a.txt'']]"
  "collect_file_paths fnmatch_posix fs_overlap [[''d'']] True None False = [[''d'', ''a.txt'']]"
  "collect_file_paths fnmatch_posix fs_overlap [[''d''], [''e'', ''..'', ''d'']] True None False
     = [[''d'', ''a.txt''], [''e'', ''..'', ''d'', ''a.txt'']]"
  by code_simp+

lemma overlap_open:
  "open_rb fs_overlap ''d/a.txt'' = Inr hello"
  "open_rb fs_overlap ''e/../d/a.txt'' = Inr hello"
  by code_simp+

lemma overlap_compute_hash:
  "compute_hash hashlib_md5 fs_overlap ''d/a.txt'' ''md5'' default_blocksize
     = Inr \<lparr>path = ''d/a.txt'', digest = ''5d41402abc4b2a76b9719d911017c592''\<rparr>"
  "compute_hash hashlib_md5 fs_overlap ''e/../d/a.txt'' ''md5'' default_blocksize
     = Inr \<lparr>path = ''e/../d/a.txt'', digest = ''5d41402abc4b2a76b9719d911017c592''\<rparr>"
proof -
  have md5: "hashlib_md5 ''md5'' = Some md5_hexdigest"
    by (simp add: hashlib_md5_def)
  show "compute_hash hashlib_md5 fs_overlap ''d/a.txt'' ''md5'' default_blocksize
     = Inr \<lparr>path = ''d/a.txt'', digest = ''5d41402abc4b2a76b9719d911017c592''\<rparr>"
    using compute_hash_digest [where hashlib_new = hashlib_md5 and hexdigest = md5_hexdigest,
        OF md5 overlap_open(1)]
    by (simp add: md5_hello)
  show "compute_hash hashlib_md5 fs_overlap ''e/../d/a.txt'' ''md5'' default_blocksize
     = Inr \<lparr>path = ''e/../d/a.txt'', digest = ''5d41402abc4b2a76b9719d911017c592''\<rparr>"
    using compute_hash_digest [where hashlib_new = hashlib_md5 and hexdigest = md5_hexdigest,
        OF md5 overlap_open(2)]
    by (simp add: md5_hello)
qed

lemma overlap_aggregate:
  "aggregate [\<lparr>path = ''d/a.txt'', digest = ''5d41402abc4b2a76b9719d911017c592''\<rparr>,
              \<lparr>path = ''d/a.txt'', digest = ''5d41402abc4b2a76b9719d911017c592''\<rparr>]
     = [(''5d41402abc4b2a76b9719d911017c592'', [''d/a.txt'', ''d/a.txt''])]"
  "aggregate [\<lparr>path = ''d/a.txt'', digest = ''5d41402abc4b2a76b9719d911017c592''\<rparr>]
     = [(''5d41402abc4b2a76b9719d911017c592'', [''d/a.txt''])]"
  "aggregate [\<lparr>path = ''d/a.txt'', digest = ''5d41402abc4b2a76b9719d911017c592''\<rparr>,
              \<lparr>path = ''e/../d/a.txt'', digest = ''5d41402abc4b2a76b9719d911017c592''\<rparr>]
     = [(''5d41402abc4b2a76b9719d911017c592'', [''d/a.txt'', ''e/../d/a.txt''])]"
  by code_simp+

lemma overlap_file_hashes:
  "file_hashes hashlib_md5 fs_overlap (\<lambda>futures. futures) ''md5''
     [[''d'', ''a.txt''], [''d'', ''a.txt'']] False
     = \<lparr>submitted = [''d/a.txt'', ''d/a.txt''], diagnostics = [],
        result = Inr [(''5d41402abc4b2a76b9719d911017c592'', [''d/a.txt'', ''d/a.txt''])]\<rparr>"
  "file_hashes hashlib_md5 fs_overlap (\<lambda>futures. futures) ''md5'' [[''d'', ''a.txt'']] False
     = \<lparr>submitted = [''d/a.txt''], diagnostics = [],
        result = Inr [(''5d41402abc4b2a76b9719d911017c592'', [''d/a.txt''])]\<rparr>"
  "file_hashes hashlib_md5 fs_overlap (\<lambda>futures. futures) ''md5''
     [[''d'', ''a.txt''], [''e'', ''..'', ''d'', ''a.txt'']] False
     = \<lparr>submitted = [''d/a.txt'', ''e/../d/a.txt''], diagnostics = [],
        result = Inr [(''5d41402abc4b2a76b9719d911017c592'', [''d/a.txt'', ''e/../d/a.txt''])]\<rparr>"
  by (simp_all add: file_hashes_def Path_str_def overlap_compute_hash overlap_aggregate)

section \<open>The claims\<close>

text \<open>
  C3. Aggregation does not depend on the completion order once it is finished: two
  sequences of hash results that are permutations of each other aggregate to the same
  mapping from digest to path list, and the path list of a digest is the sorted list
  (lexicographic order on strings) of all the paths that the input pairs with that
  digest; a digest that no result carries has no entry.
\<close>

theorem aggregate_completion_order_independent:
  assumes "mset results' = mset results"
  shows "map_of (aggregate results') = map_of (aggregate results) \<and>
    (\<forall>d. map_of (aggregate results) d =
       (if d \<in> digest ` set results
        then Some (sort (map path (filter (\<lambda>r. digest r = d) results)))
        else None))"
proof -
  have same_set: "set results' = set results"
    using assms by (rule mset_eq_setD)
  have "map_of (aggregate results') d = map_of (aggregate results) d" for d
    using sorted_py_mset_cong [OF paths_of_mset_cong [OF assms, of d]]
    by (simp add: map_of_aggregate same_set)
  then have "map_of (aggregate results') = map_of (aggregate results)"
    by (rule ext)
  moreover have "\<forall>d. map_of (aggregate results) d =
       (if d \<in> digest ` set results
        then Some (sort (map path (filter (\<lambda>r. digest r = d) results)))
        else None)"
    by (simp add: map_of_aggregate sorted_py_def paths_of_def)
  ultimately show ?thesis by simp
qed

theorem aggregate_completion_order_independent_witness:
  "mset [\<lparr>path = ''b.txt'', digest = ''d1''\<rparr>, \<lparr>path = ''c.txt'', digest = ''d2''\<rparr>,
         \<lparr>path = ''a.txt'', digest = ''d1''\<rparr>]
     = mset [\<lparr>path = ''a.txt'', digest = ''d1''\<rparr>, \<lparr>path = ''b.txt'', digest = ''d1''\<rparr>,
         \<lparr>path = ''c.txt'', digest = ''d2''\<rparr>] \<and>
   map_of (aggregate [\<lparr>path = ''b.txt'', digest = ''d1''\<rparr>, \<lparr>path = ''c.txt'', digest = ''d2''\<rparr>,
         \<lparr>path = ''a.txt'', digest = ''d1''\<rparr>])
     = map_of (aggregate [\<lparr>path = ''a.txt'', digest = ''d1''\<rparr>,
         \<lparr>path = ''b.txt'', digest = ''d1''\<rparr>, \<lparr>path = ''c.txt'', digest = ''d2''\<rparr>])"
proof -
  have perm: "mset [\<lparr>path = ''b.txt'', digest = ''d1''\<rparr>, \<lparr>path = ''c.txt'', digest = ''d2''\<rparr>,
         \<lparr>path = ''a.txt'', digest = ''d1''\<rparr>]
     = mset [\<lparr>path = ''a.txt'', digest = ''d1''\<rparr>, \<lparr>path = ''b.txt'', digest = ''d1''\<rparr>,
         \<lparr>path = ''c.txt'', digest = ''d2''\<rparr>]"
    by (simp add: add_mset_commute)
  from aggregate_completion_order_independent [OF perm] perm show ?thesis
    by blast
qed

text \<open>
  C8. The groups never hold an empty path list. After any number \<open>n\<close> of results has been
  consumed, no key of the dictionary maps to the empty list and the keys are exactly the
  digests of the results consumed so far; consuming the next result either appends its
  path to the list of a key that is present or, when its digest is new, adds the key at
  the end with the one-element list of that path. The finished mapping (after the sort)
  has no empty path list either.
\<close>

theorem groups_never_hold_an_empty_list:
  "[] \<notin> snd ` set (aggregate_loop [] (take n results)) \<and>
   fst ` set (aggregate_loop [] (take n results)) = digest ` set (take n results) \<and>
   add_result (aggregate_loop [] (take n results)) res =
     (if digest res \<in> digest ` set (take n results)
      then AList.update (digest res) (paths_of (digest res) (take n results) @ [path res])
             (aggregate_loop [] (take n results))
      else aggregate_loop [] (take n results) @ [(digest res, [path res])]) \<and>
   [] \<notin> snd ` set (aggregate results)"
proof -
  have nonempty: "[] \<notin> snd ` set (aggregate_loop [] rs)" for rs
  proof
    assume "[] \<in> snd ` set (aggregate_loop [] rs)"
    then obtain d where "(d, []) \<in> set (aggregate_loop [] rs)"
      by force
    from values_aggregate_loop [OF this] paths_of_nonempty [of d rs] show False
      by simp
  qed
  have step: "add_result (aggregate_loop [] rs) res =
     (if digest res \<in> digest ` set rs
      then AList.update (digest res) (paths_of (digest res) rs @ [path res])
             (aggregate_loop [] rs)
      else aggregate_loop [] rs @ [(digest res, [path res])])" for rs
    by (simp add: add_result_cases map_of_aggregate_loop)
  have final: "[] \<notin> snd ` set (aggregate results)"
  proof
    assume "[] \<in> snd ` set (aggregate results)"
    then obtain d ps where "(d, ps) \<in> set (aggregate_loop [] results)" and "sorted_py ps = []"
      unfolding aggregate_eq by force
    then have "(d, []) \<in> set (aggregate_loop [] results)"
      by (simp add: sorted_py_eq_Nil)
    then have "[] \<in> snd ` set (aggregate_loop [] results)"
      by force
    with nonempty show False by simp
  qed
  from nonempty [of "take n results"] keys_aggregate_loop [of "take n results"]
    step [of "take n results"] final
  show ?thesis by simp
qed


text \<open>
  C2. Group filtering. For every well-formed mapping of groups: without digests to match
  (duplicates mode) the groups retained are exactly those with more than one path; with
  one or more digests to match (match mode) they are exactly those whose digest is among
  the digests supplied, whatever their size. The order of the groups is kept.
\<close>

theorem group_filtering_semantics:
  assumes "dict_wf hashes"
  shows "(match_digests = [] \<longrightarrow>
            filter_groups match_digests hashes
              = filter (\<lambda>(d, paths). length paths > 1) hashes) \<and>
         (match_digests \<noteq> [] \<longrightarrow>
            filter_groups match_digests hashes
              = filter (\<lambda>(d, paths). d \<in> set match_digests) hashes)"
  by (simp add: filter_groups_eq [OF assms])

theorem group_filtering_semantics_witness:
  "dict_wf [(''d1'', [''a.txt'']), (''d2'', [''b.txt'', ''c.txt''])] \<and>
   filter_groups [] [(''d1'', [''a.txt'']), (''d2'', [''b.txt'', ''c.txt''])]
     = [(''d2'', [''b.txt'', ''c.txt''])] \<and>
   filter_groups [''d1'', ''d3''] [(''d1'', [''a.txt'']), (''d2'', [''b.txt'', ''c.txt''])]
     = [(''d1'', [''a.txt''])]"
proof -
  have wf: "dict_wf [(''d1'', [''a.txt'']), (''d2'', [''b.txt'', ''c.txt''])]"
    by (simp add: dict_wf_def)
  from group_filtering_semantics [OF wf, of "[]"]
    group_filtering_semantics [OF wf, of "[''d1'', ''d3'']"] wf
  show ?thesis by simp
qed

text \<open>
  C1. The exit status. With a format that \<^verbatim>\<open>click.Choice\<close> admits: in quiet mode nothing
  is written and the exit code is 0 when the retained mapping is non-empty and 1 when it
  is empty; without quiet, in match mode with an empty retained mapping the exit code is
  1 and what was written is the rendering of the empty mapping; in every other case
  without quiet the exit code is 0.
\<close>

theorem exit_code_contract:
  assumes "output_format \<in> set format_choices"
  shows "(quiet \<longrightarrow>
            filter_and_render quiet output_format hash_algorithm match_digests hashes
              = ([], Inr (if filter_groups match_digests hashes \<noteq> [] then 0 else 1))) \<and>
         (\<not> quiet \<and> match_digests \<noteq> [] \<and> filter_groups match_digests hashes = [] \<longrightarrow>
            (\<exists>out. render output_format hash_algorithm match_digests [] = Inr out \<and>
               filter_and_render quiet output_format hash_algorithm match_digests hashes
                 = (out, Inr 1))) \<and>
         (\<not> quiet \<and> \<not> (match_digests \<noteq> [] \<and> filter_groups match_digests hashes = []) \<longrightarrow>
            snd (filter_and_render quiet output_format hash_algorithm match_digests hashes)
              = Inr 0)"
proof -
  obtain out where out:
    "render output_format hash_algorithm match_digests
       (filter_groups match_digests hashes) = Inr out"
    using render_choice [OF assms] by blast
  then show ?thesis
    by (auto simp: filter_and_render_def Let_def)
qed

theorem exit_code_contract_witness:
  "''csv'' \<in> set format_choices \<and>
   filter_and_render True ''csv'' ''md5'' [] [(''d1'', [''a.txt'', ''b.txt''])] = ([], Inr 0) \<and>
   filter_and_render True ''csv'' ''md5'' [] [(''d1'', [''a.txt''])] = ([], Inr 1) \<and>
   filter_and_render False ''csv'' ''md5'' [''abc123''] [(''d1'', [''a.txt'', ''b.txt''])]
     = ([Csv_row [''md5'', ''path'']], Inr 1) \<and>
   snd (filter_and_render False ''csv'' ''md5'' [] [(''d1'', [''a.txt''])]) = Inr 0"
proof -
  have choice: "''csv'' \<in> set format_choices"
    by (simp add: format_choices_def)
  have wf2: "dict_wf [(''d1'', [''a.txt'', ''b.txt''])]" and wf1: "dict_wf [(''d1'', [''a.txt''])]"
    by (simp_all add: dict_wf_def)
  have r: "render ''csv'' ''md5'' [''abc123''] [] = Inr [Csv_row [''md5'', ''path'']]"
    by (simp add: render_def write_csv_def)
  from exit_code_contract [OF choice, of True "''md5''" "[]" "[(''d1'', [''a.txt'', ''b.txt''])]"]
    exit_code_contract [OF choice, of True "''md5''" "[]" "[(''d1'', [''a.txt''])]"]
    exit_code_contract [OF choice, of False "''md5''" "[''abc123'']"
      "[(''d1'', [''a.txt'', ''b.txt''])]"]
    exit_code_contract [OF choice, of False "''md5''" "[]" "[(''d1'', [''a.txt''])]"]
    choice r
  show ?thesis
    by (simp add: filter_groups_eq [OF wf1] filter_groups_eq [OF wf2])
qed

text \<open>
  C10. The CSV rendering always has the header row. Whatever the file holds before,
  \<^verbatim>\<open>_write_csv\<close> adds the row of the algorithm name and \<^verbatim>\<open>path\<close>, then one row per
  pair of a digest and one of its paths, in the order of the mapping. Without quiet and
  with the format \<^verbatim>\<open>csv\<close>, \<^verbatim>\<open>main\<close> writes exactly that for the retained mapping; when
  the retained mapping is empty the output is the header row alone, not nothing.
\<close>

theorem csv_always_has_header:
  "write_csv identical hash_algorithm f =
     f @ Csv_row [hash_algorithm, ''path'']
       # concat (map (\<lambda>(d, files). map (\<lambda>file. Csv_row [d, file]) files) identical) \<and>
   fst (filter_and_render False ''csv'' hash_algorithm match_digests hashes) =
     Csv_row [hash_algorithm, ''path'']
       # concat (map (\<lambda>(d, files). map (\<lambda>file. Csv_row [d, file]) files)
           (filter_groups match_digests hashes)) \<and>
   (filter_groups match_digests hashes = [] \<longrightarrow>
      fst (filter_and_render False ''csv'' hash_algorithm match_digests hashes)
        = [Csv_row [hash_algorithm, ''path'']])"
  by (simp add: write_csv_eq filter_and_render_def render_def Let_def)

theorem csv_always_has_header_witness:
  "filter_groups [''abc123''] [(''d1'', [''a.txt'', ''b.txt''])] = [] \<and>
   fst (filter_and_render False ''csv'' ''md5'' [''abc123''] [(''d1'', [''a.txt'', ''b.txt''])])
     = [Csv_row [''md5'', ''path'']] \<and>
   fst (filter_and_render False ''csv'' ''md5'' [] [(''d1'', [''a.txt'', ''b.txt''])])
     = [Csv_row [''md5'', ''path''], Csv_row [''d1'', ''a.txt''], Csv_row [''d1'', ''b.txt'']]"
proof -
  have wf: "dict_wf [(''d1'', [''a.txt'', ''b.txt''])]"
    by (simp add: dict_wf_def)
  from csv_always_has_header [of "[]" "''md5''" "[]" "[''abc123'']" "[(''d1'', [''a.txt'', ''b.txt''])]"]
    csv_always_has_header [of "[]" "''md5''" "[]" "[]" "[(''d1'', [''a.txt'', ''b.txt''])]"]
  show ?thesis
    by (simp add: filter_groups_eq [OF wf])
qed


text \<open>
  C4. Case-insensitive glob. The law to hold is that matching a name against a pattern
  (without a leading \<^verbatim>\<open>!\<close>) in case-insensitive mode is matching the lowercased name
  against the lowercased pattern in case-sensitive mode. The matcher lowercases the
  pattern only. Where \<^verbatim>\<open>fnmatch.fnmatch\<close> is case-sensitive, the pattern \<^verbatim>\<open>*.txt\<close> in
  case-insensitive mode rejects the name \<^verbatim>\<open>A.TXT\<close>, while the lowercased name matches
  the lowercased pattern.
\<close>

theorem case_insensitive_glob_keeps_name_case:
  "Matcher_call (Matcher_init fnmatch_posix ''*.txt'' True) ''A.TXT'' = False \<and>
   Matcher_call (Matcher_init fnmatch_posix (str_lower ''*.txt'') False) (str_lower ''A.TXT'')
     = True \<and>
   str_lower ''A.TXT'' = ''a.txt'' \<and> str_lower ''*.txt'' = ''*.txt''"
  by code_simp

text \<open>
  C5. The negation law, for a pattern that does not itself begin with \<^verbatim>\<open>!\<close>: the filter
  built from \<^verbatim>\<open>!\<close> followed by the pattern accepts a name exactly when the filter built
  from the pattern rejects it, in both case modes and whatever \<^verbatim>\<open>fnmatch.fnmatch\<close>
  computes. Only one \<^verbatim>\<open>!\<close> is removed, so the law fails for a pattern that begins with
  \<^verbatim>\<open>!\<close>: the filters of \<^verbatim>\<open>!!x\<close> and of \<^verbatim>\<open>!x\<close> both accept the name \<^verbatim>\<open>y\<close>.
\<close>

theorem glob_negation_law:
  assumes "\<not> (p \<noteq> [] \<and> hd p = CHR ''!'')"
  shows "Matcher_call (Matcher_init fnmatch (CHR ''!'' # p) case_insensitive) n
           = (\<not> Matcher_call (Matcher_init fnmatch p case_insensitive) n)"
  using assms by (auto simp: Matcher_call_def Matcher_init_def Let_def)

theorem glob_negation_law_witness:
  "\<not> (''*.txt'' \<noteq> [] \<and> hd ''*.txt'' = CHR ''!'') \<and>
   Matcher_call (Matcher_init fnmatch_posix ''!*.txt'' False) ''a.txt'' = False \<and>
   Matcher_call (Matcher_init fnmatch_posix ''*.txt'' False) ''a.txt'' = True"
proof -
  have unprefixed: "\<not> (''*.txt'' \<noteq> [] \<and> hd ''*.txt'' = CHR ''!'')"
    by simp
  have "Matcher_call (Matcher_init fnmatch_posix ''*.txt'' False) ''a.txt''"
    by (simp add: Matcher_call_def Matcher_init_def fnmatch_posix_def)
  with glob_negation_law [OF unprefixed, of fnmatch_posix False "''a.txt''"] unprefixed
  show ?thesis by simp
qed

theorem glob_negation_law_fails_for_negated_pattern:
  "Matcher_call (Matcher_init fnmatch_posix (CHR ''!'' # ''!x'') False) ''y''
     \<noteq> (\<not> Matcher_call (Matcher_init fnmatch_posix ''!x'' False) ''y'')"
  by (simp add: Matcher_call_def Matcher_init_def fnmatch_posix_def)


text \<open>
  C6. The output of the collector is to be free of duplicates, also for roots that
  overlap. The collector removes duplicates among the roots only. With the roots \<^verbatim>\<open>d\<close>
  and \<^verbatim>\<open>d/a.txt\<close> under recursion, the candidate \<^verbatim>\<open>d/a.txt\<close> is yielded twice and
  hashed twice, the one file forms a group of two paths, and the quiet run exits with 0
  where the run on the root \<^verbatim>\<open>d\<close> alone exits with 1. With the two spellings \<^verbatim>\<open>d\<close> and
  \<^verbatim>\<open>e/../d\<close> of one directory, its file is hashed twice as well, under two paths.
\<close>

theorem overlapping_roots_yield_a_file_twice:
  "collect_file_paths fnmatch_posix fs_overlap [[''d''], [''d'', ''a.txt'']] True None False
     = [[''d'', ''a.txt''], [''d'', ''a.txt'']] \<and>
   \<not> distinct
       (collect_file_paths fnmatch_posix fs_overlap [[''d''], [''d'', ''a.txt'']] True None False) \<and>
   file_hashes hashlib_md5 fs_overlap (\<lambda>futures. futures) ''md5''
     (collect_file_paths fnmatch_posix fs_overlap [[''d''], [''d'', ''a.txt'']] True None False)
     False
     = \<lparr>submitted = [''d/a.txt'', ''d/a.txt''], diagnostics = [],
        result = Inr [(''5d41402abc4b2a76b9719d911017c592'', [''d/a.txt'', ''d/a.txt''])]\<rparr> \<and>
   run_status (main platform_overlap [[''d''], [''d'', ''a.txt'']] None True ''txt'' ''md5'' []
                 True True None False) = Inr 0 \<and>
   run_status (main platform_overlap [[''d'']] None True ''txt'' ''md5'' [] True True None False)
     = Inr 1 \<and>
   file_hashes hashlib_md5 fs_overlap (\<lambda>futures. futures) ''md5''
     (collect_file_paths fnmatch_posix fs_overlap [[''d''], [''e'', ''..'', ''d'']] True None
        False)
     False
     = \<lparr>submitted = [''d/a.txt'', ''e/../d/a.txt''], diagnostics = [],
        result = Inr [(''5d41402abc4b2a76b9719d911017c592'', [''d/a.txt'', ''e/../d/a.txt''])]\<rparr>"
proof -
  have twice: "\<not> distinct [[''d'', ''a.txt''], [''d'', ''a.txt'']]"
    by simp
  have quiet_two: "run_status (main platform_overlap [[''d''], [''d'', ''a.txt'']] None True
      ''txt'' ''md5'' [] True True None False) = Inr 0"
    by (simp add: main_def platform_overlap_def overlap_collect overlap_file_hashes
        filter_and_render_def filter_groups_def dict_comp_def)
  have quiet_one: "run_status (main platform_overlap [[''d'']] None True ''txt'' ''md5'' []
      True True None False) = Inr 1"
    by (simp add: main_def platform_overlap_def overlap_collect overlap_file_hashes
        filter_and_render_def filter_groups_def dict_comp_def)
  from twice quiet_two quiet_one show ?thesis
    by (simp add: overlap_collect overlap_file_hashes)
qed

text \<open>
  C7. Scenario A, with the digest that MD5 gives. For the two files \<^verbatim>\<open>a.txt\<close> and
  \<^verbatim>\<open>b.txt\<close> whose content is the five bytes \<^verbatim>\<open>hello\<close>, hashing with \<^verbatim>\<open>md5\<close> and
  aggregating yields, in whatever order the pool completes the two futures, exactly one
  group: its digest is \<^verbatim>\<open>5d41402abc4b2a76b9719d911017c592\<close> and its path list is
  \<^verbatim>\<open>a.txt\<close>, \<^verbatim>\<open>b.txt\<close>. The digest has 32 hexadecimal digits; the string of 31 digits
  that lacks the final \<^verbatim>\<open>2\<close> is not what is computed.
\<close>

theorem scenario_A_groups:
  assumes "\<And>futures. mset (as_completed futures) = mset futures"
  shows "result (file_hashes hashlib_md5 fs_scenario_A as_completed ''md5''
                   [[''a.txt''], [''b.txt'']] show_progress)
           = Inr [(''5d41402abc4b2a76b9719d911017c592'', [''a.txt'', ''b.txt''])]"
proof -
  let ?a = "\<lparr>path = ''a.txt'', digest = ''5d41402abc4b2a76b9719d911017c592''\<rparr>"
  let ?b = "\<lparr>path = ''b.txt'', digest = ''5d41402abc4b2a76b9719d911017c592''\<rparr>"
  have "mset (as_completed [Inr ?a, Inr ?b]) = mset [Inr ?a, Inr ?b]"
    by (rule assms)
  then have "as_completed [Inr ?a, Inr ?b] = map Inr [?a, ?b]
      \<or> as_completed [Inr ?a, Inr ?b] = map Inr [?b, ?a]"
    using pair_permutations [of "as_completed [Inr ?a, Inr ?b]" "Inr ?a" "Inr ?b"] by simp
  then have "(case future_results (as_completed [Inr ?a, Inr ?b]) of
                Inl e \<Rightarrow> Inl e | Inr results \<Rightarrow> Inr (aggregate results))
             = Inr [(''5d41402abc4b2a76b9719d911017c592'', [''a.txt'', ''b.txt''])]"
    by (auto simp only: future_results_Inr scenario_A_aggregate sum.case)
  then show ?thesis
    by (simp add: file_hashes_def Let_def scenario_A_futures del: list.map)
qed

theorem scenario_A_groups_witness:
  "(\<forall>futures :: (error + HashResult) list. mset (rev futures) = mset futures) \<and>
   result (file_hashes hashlib_md5 fs_scenario_A rev ''md5'' [[''a.txt''], [''b.txt'']] False)
     = Inr [(''5d41402abc4b2a76b9719d911017c592'', [''a.txt'', ''b.txt''])]"
  using scenario_A_groups [of rev False] by simp

theorem scenario_A_digest_has_32_digits:
  "result (file_hashes hashlib_md5 fs_scenario_A (\<lambda>futures. futures) ''md5''
             [[''a.txt''], [''b.txt'']] False)
     \<noteq> Inr [(''5d41402abc4b2a76b9719d911017c59'', [''a.txt'', ''b.txt''])]"
proof -
  have "result (file_hashes hashlib_md5 fs_scenario_A (\<lambda>futures. futures) ''md5''
             [[''a.txt''], [''b.txt'']] False)
     = Inr [(''5d41402abc4b2a76b9719d911017c592'', [''a.txt'', ''b.txt''])]"
    by (simp add: file_hashes_def Let_def scenario_A_futures scenario_A_aggregate(1)
        del: list.map)
  then show ?thesis by simp
qed

text \<open>
  C9. An empty candidate set is not fatal. Whenever the collector yields no candidate
  path, \<^verbatim>\<open>_file_hashes\<close> submits no job, writes the warning to standard error and returns
  the empty mapping, not an exception.
\<close>

theorem empty_candidate_set_is_not_fatal:
  assumes "collect_file_paths fnmatch fs paths recursive glob glob_case_insensitive = []"
  shows "file_hashes hashlib_new fs as_completed hash_algorithm
           (collect_file_paths fnmatch fs paths recursive glob glob_case_insensitive)
           show_progress
         = \<lparr>submitted = [],
            diagnostics = [Secho_err [Style ''Warning: no files passed'' Yellow True]],
            result = Inr []\<rparr>"
  using assms by (simp add: file_hashes_def)

theorem empty_candidate_set_is_not_fatal_witness:
  "collect_file_paths fnmatch_posix fs_example [[''d'']] False None False = [] \<and>
   file_hashes hashlib_md5 fs_example rev ''md5''
     (collect_file_paths fnmatch_posix fs_example [[''d'']] False None False) True
   = \<lparr>submitted = [],
      diagnostics = [Secho_err [Style ''Warning: no files passed'' Yellow True]],
      result = Inr []\<rparr>"
proof -
  have none: "collect_file_paths fnmatch_posix fs_example [[''d'']] False None False = []"
    by code_simp
  from empty_candidate_set_is_not_fatal [OF none, of hashlib_md5 rev "''md5''" True] none
  show ?thesis by blast
qed

end
